theory Spec2Isabelle
  imports Main "HOL-Library.Char_ord" "HOL-Library.List_Lexorder"
begin

section \<open>Text: characters, case, whitespace\<close>

text \<open>
  A Python \<open>str\<close> is a sequence of code points. The model is \<open>string\<close>, where one
  \<open>char\<close> stands for one code point in the range U+0000 .. U+00FF (so \<open>length\<close> counts
  code points, as Python's \<open>len\<close> does). The three functions below are Python's
  \<open>str.isalpha\<close>, \<open>str.isspace\<close> and \<open>str.lower\<close> on that range: besides the
  ASCII letters, \<open>isalpha\<close> holds of U+00AA, U+00B5, U+00BA, U+00C0 .. U+00D6,
  U+00D8 .. U+00F6 and U+00F8 .. U+00FF; whitespace is U+0009 .. U+000D,
  U+001C .. U+0020, U+0085 and U+00A0 (the same set that \<open>\s\<close> matches in a
  \<open>str\<close> pattern); \<open>lower\<close> adds 32 to A .. Z and to U+00C0 .. U+00DE except U+00D7.
\<close>

definition py_isalpha :: "char \<Rightarrow> bool" where
  "py_isalpha c =
     (let n = (of_char c :: nat) in
        (65 \<le> n \<and> n \<le> 90) \<or> (97 \<le> n \<and> n \<le> 122) \<or>
        n = 170 \<or> n = 181 \<or> n = 186 \<or>
        (192 \<le> n \<and> n \<le> 214) \<or> (216 \<le> n \<and> n \<le> 246) \<or> (248 \<le> n \<and> n \<le> 255))"

definition py_isspace :: "char \<Rightarrow> bool" where
  "py_isspace c =
     (let n = (of_char c :: nat) in
        (9 \<le> n \<and> n \<le> 13) \<or> (28 \<le> n \<and> n \<le> 32) \<or> n = 133 \<or> n = 160)"

definition py_lower_char :: "char \<Rightarrow> char" where
  "py_lower_char c =
     (let n = (of_char c :: nat) in
        if (65 \<le> n \<and> n \<le> 90) \<or> (192 \<le> n \<and> n \<le> 214) \<or> (216 \<le> n \<and> n \<le> 222)
        then char_of (n + 32) else c)"

definition py_lower :: "string \<Rightarrow> string" where
  "py_lower s = map py_lower_char s"

definition py_strip :: "string \<Rightarrow> string" where
  "py_strip s = rev (dropWhile py_isspace (rev (dropWhile py_isspace s)))"

definition startswith :: "string \<Rightarrow> string \<Rightarrow> bool" where
  "startswith s p = (take (length p) s = p)"

definition endswith :: "string \<Rightarrow> string \<Rightarrow> bool" where
  "endswith s p = (length p \<le> length s \<and> drop (length s - length p) s = p)"

abbreviation LF :: char where "LF \<equiv> CHR 0x0A"
abbreviation CR :: char where "CR \<equiv> CHR 0x0D"

text \<open>\<open>all(c.isalpha() or c == "-" for c in w)\<close>\<close>

definition all_alpha_or_hyphen :: "string \<Rightarrow> bool" where
  "all_alpha_or_hyphen w = list_all (\<lambda>c. py_isalpha c \<or> c = CHR ''-'') w"

section \<open>The file system\<close>

text \<open>
  A directory is a map from file names to files; a file has its stored text and its
  modification time. Every write takes the clock reading \<open>now\<close>. Files are opened in text
  mode: reading translates the line ends \<open>\r\n\<close> and \<open>\r\<close> to \<open>\n\<close> (universal
  newlines), writing stores \<open>\n\<close> as it is (a POSIX system). Faults of the environment
  (permissions, a full disk) are outside the model; the only failure of a copy is a source
  that does not exist.
\<close>

record stored_file =
  content :: string
  mtime :: nat

type_synonym fs = "string \<rightharpoonup> stored_file"

definition BLOCKLIST_FILE :: string where
  "BLOCKLIST_FILE = ''blocklist.txt''"

definition path_exists :: "fs \<Rightarrow> string \<Rightarrow> bool" where
  "path_exists d p = (d p \<noteq> None)"

definition write_file :: "nat \<Rightarrow> fs \<Rightarrow> string \<Rightarrow> string \<Rightarrow> fs" where
  "write_file now d p txt = d(p \<mapsto> \<lparr>content = txt, mtime = now\<rparr>)"

fun universal_newlines :: "string \<Rightarrow> string" where
  "universal_newlines [] = []"
| "universal_newlines [c] = (if c = CR then [LF] else [c])"
| "universal_newlines (c # d # cs) =
     (if c = CR then (if d = LF then LF # universal_newlines cs
                      else LF # universal_newlines (d # cs))
      else c # universal_newlines (d # cs))"

text \<open>\<open>for line in f\<close>: the lines of the text, each with its terminating \<open>\n\<close> (the last
  one has none when the text does not end in \<open>\n\<close>).\<close>

fun lines_from :: "string \<Rightarrow> string \<Rightarrow> string list" where
  "lines_from acc [] = (if acc = [] then [] else [acc])"
| "lines_from acc (c # cs) =
     (if c = LF then (acc @ [c]) # lines_from [] cs else lines_from (acc @ [c]) cs)"

definition file_lines :: "string \<Rightarrow> string list" where
  "file_lines txt = lines_from [] (universal_newlines txt)"

definition copy_file :: "nat \<Rightarrow> fs \<Rightarrow> string \<Rightarrow> string \<Rightarrow> fs option" where
  "copy_file now d src dst =
     (case d src of
        None \<Rightarrow> None
      | Some f \<Rightarrow> Some (d(dst \<mapsto> \<lparr>content = content f, mtime = now\<rparr>)))"

section \<open>Blocklist helpers\<close>

text \<open>The body of the reading loop of \<open>load_blocklist\<close> and \<open>clean_blocklist_file\<close>
  (the two loops are the same text): one line, and the set built so far.\<close>

definition accept_line :: "string \<Rightarrow> string set \<Rightarrow> string set" where
  "accept_line line valid =
     (let w = py_lower (py_strip line) in
        if w = [] then valid
        else if startswith w ''#'' \<or> startswith w ''-'' then valid
        else if all_alpha_or_hyphen w then insert w valid
        else valid)"

definition scan_lines :: "string list \<Rightarrow> string set" where
  "scan_lines ls = fold accept_line ls {}"

text \<open>\<open>for w in sorted(words): f.write(w + "\n")\<close>\<close>

definition render_words :: "string set \<Rightarrow> string" where
  "render_words words = concat (map (\<lambda>w. w @ [LF]) (sorted_list_of_set words))"

text \<open>\<open>load_blocklist\<close>: an absent file is created empty, and then read (no lines).\<close>

definition load_blocklist :: "nat \<Rightarrow> fs \<Rightarrow> fs \<times> string set" where
  "load_blocklist now d =
     (case d BLOCKLIST_FILE of
        None \<Rightarrow> (write_file now d BLOCKLIST_FILE [], scan_lines (file_lines []))
      | Some f \<Rightarrow> (d, scan_lines (file_lines (content f))))"

definition save_blocklist :: "nat \<Rightarrow> fs \<Rightarrow> string set \<Rightarrow> fs" where
  "save_blocklist now d words = write_file now d BLOCKLIST_FILE (render_words words)"

text \<open>\<open>clean_blocklist_file\<close> returns the directory and the count it prints (nothing is
  printed when it only creates the file).\<close>

definition clean_blocklist_file :: "nat \<Rightarrow> fs \<Rightarrow> fs \<times> nat option" where
  "clean_blocklist_file now d =
     (case d BLOCKLIST_FILE of
        None \<Rightarrow> (write_file now d BLOCKLIST_FILE [], None)
      | Some f \<Rightarrow>
          (let cleaned = scan_lines (file_lines (content f))
           in (write_file now d BLOCKLIST_FILE (render_words cleaned), Some (card cleaned))))"

text \<open>The four messages of \<open>add_invalid\<close>.\<close>

datatype add_report = Empty_Word | Bad_Characters | Already_Present string | Added string

definition add_invalid :: "nat \<Rightarrow> fs \<Rightarrow> string \<Rightarrow> fs \<times> add_report" where
  "add_invalid now d word =
     (let (d1, words) = load_blocklist now d;
          w = py_lower (py_strip word)
      in if w = [] then (d1, Empty_Word)
         else if \<not> all_alpha_or_hyphen w then (d1, Bad_Characters)
         else if w \<in> words then (d1, Already_Present w)
         else (save_blocklist now d1 (insert w words), Added w))"

section \<open>Backup and restore\<close>

text \<open>
  \<open>backup_blocklist\<close> takes the clock twice: \<open>ts\<close> is what \<open>strftime\<close> prints for
  the current second, \<open>now\<close> the modification time the copy gets. \<open>shutil.copy\<close> copies
  the stored text as it is.
\<close>

datatype backup_report = No_Blocklist | Backup_Created string | Backup_Failed

definition backup_name :: "string \<Rightarrow> string" where
  "backup_name ts = ''blocklist_backup_'' @ ts @ ''.txt''"

definition backup_blocklist :: "string \<Rightarrow> nat \<Rightarrow> fs \<Rightarrow> fs \<times> backup_report" where
  "backup_blocklist ts now d =
     (if \<not> path_exists d BLOCKLIST_FILE then (d, No_Blocklist)
      else (let name = backup_name ts in
            case copy_file now d BLOCKLIST_FILE name of
              Some d' \<Rightarrow> (d', Backup_Created name)
            | None \<Rightarrow> (d, Backup_Failed)))"

text \<open>
  \<open>glob.glob("blocklist_backup_*.txt")\<close>: the names of the directory that start with
  \<open>blocklist_backup_\<close> and end with \<open>.txt\<close> (the star may match nothing), in the order
  in which the system enumerates the directory. That order is not fixed by anything in
  the program: it is the argument \<open>listing\<close>. Each name comes with its file, which
  \<open>os.path.getmtime\<close> reads.
\<close>

definition glob_match :: "string \<Rightarrow> bool" where
  "glob_match p =
     (length ''blocklist_backup_'' + length ''.txt'' \<le> length p \<and>
      startswith p ''blocklist_backup_'' \<and> endswith p ''.txt'')"

definition glob_backups :: "fs \<Rightarrow> string list \<Rightarrow> (string \<times> stored_file) list" where
  "glob_backups d listing =
     List.map_filter
       (\<lambda>p. case d p of None \<Rightarrow> None
                        | Some f \<Rightarrow> if glob_match p then Some (p, f) else None)
       listing"

text \<open>\<open>sorted(xs, key=k, reverse=True)\<close>: descending, and stable (equal keys keep their
  order).\<close>

definition sorted_reverse :: "('a \<Rightarrow> nat) \<Rightarrow> 'a list \<Rightarrow> 'a list" where
  "sorted_reverse k xs = rev (sort_key k (rev xs))"

datatype restore_report = No_Backups | Restored string | Restore_Failed

definition restore_latest_backup :: "string list \<Rightarrow> nat \<Rightarrow> fs \<Rightarrow> fs \<times> restore_report" where
  "restore_latest_backup listing now d =
     (let backups = sorted_reverse (\<lambda>(p, f). mtime f) (glob_backups d listing) in
      case backups of
        [] \<Rightarrow> (d, No_Backups)
      | (latest, f) # rest \<Rightarrow>
          (case copy_file now d latest BLOCKLIST_FILE of
             Some d' \<Rightarrow> (d', Restored latest)
           | None \<Rightarrow> (d, Restore_Failed)))"

section \<open>The response parser\<close>

text \<open>
  The pattern \<open>(?im)^\s*INVALID\s*:\s*(.+)$\<close> is matched by backtracking. Each piece of
  the pattern is a function from the text that remains to the list of the texts that can
  remain after it, in the order in which the matcher tries them (a greedy star tries the
  longest first). \<open>\s\<close> matches line ends too; \<open>.\<close> matches everything but \<open>\n\<close>;
  under \<open>(?i)\<close> a letter matches both its cases; under \<open>(?m)\<close> \<open>^\<close> matches at the
  start of the text and after each \<open>\n\<close>, and \<open>$\<close> at the end of the text and before
  each \<open>\n\<close>.
\<close>

fun rx_spaces :: "string \<Rightarrow> string list" where
  "rx_spaces [] = [[]]"
| "rx_spaces (c # cs) = (if py_isspace c then rx_spaces cs @ [c # cs] else [c # cs])"

definition rx_literal_ci :: "string \<Rightarrow> string \<Rightarrow> string list" where
  "rx_literal_ci lit s =
     (if length lit \<le> length s \<and> py_lower (take (length lit) s) = py_lower lit
      then [drop (length lit) s] else [])"

definition rx_char :: "char \<Rightarrow> string \<Rightarrow> string list" where
  "rx_char c s = (case s of [] \<Rightarrow> [] | d # ds \<Rightarrow> if d = c then [ds] else [])"

text \<open>\<open>(.+)\<close>: the captured text and the rest, longest capture first.\<close>

fun rx_dot_plus :: "string \<Rightarrow> (string \<times> string) list" where
  "rx_dot_plus [] = []"
| "rx_dot_plus (c # cs) =
     (if c = LF then []
      else map (\<lambda>(cap, r). (c # cap, r)) (rx_dot_plus cs) @ [([c], cs)])"

definition rx_eol :: "string \<Rightarrow> bool" where
  "rx_eol r = (case r of [] \<Rightarrow> True | c # cs \<Rightarrow> c = LF)"

text \<open>All the ways in which the pattern after \<open>^\<close> matches a prefix of \<open>s\<close>, in the
  matcher's order; the match is the first one.\<close>

definition match_here :: "string \<Rightarrow> (string \<times> string) list" where
  "match_here s =
     concat (map (\<lambda>r1.
     concat (map (\<lambda>r2.
     concat (map (\<lambda>r3.
     concat (map (\<lambda>r4.
     concat (map (\<lambda>r5.
       filter (\<lambda>(cap, r6). rx_eol r6) (rx_dot_plus r5))
     (rx_spaces r4)))
     (rx_char CHR '':'' r3)))
     (rx_spaces r2)))
     (rx_literal_ci ''INVALID'' r1)))
     (rx_spaces s))"

definition match_at :: "string \<Rightarrow> (string \<times> string) option" where
  "match_at s = (case match_here s of [] \<Rightarrow> None | m # ms \<Rightarrow> Some m)"

text \<open>Every match takes at least one character, so the search below ends.\<close>

lemma rx_spaces_length: "r \<in> set (rx_spaces s) \<Longrightarrow> length r \<le> length s"
  by (induction s) (auto split: if_splits)

lemma rx_literal_ci_length: "r \<in> set (rx_literal_ci lit s) \<Longrightarrow> length r \<le> length s"
  by (auto simp: rx_literal_ci_def split: if_splits)

lemma rx_char_length: "r \<in> set (rx_char c s) \<Longrightarrow> length r < length s"
  by (auto simp: rx_char_def split: list.splits if_splits)

lemma rx_dot_plus_length: "(cap, r) \<in> set (rx_dot_plus s) \<Longrightarrow> length r < length s"
  by (induction s arbitrary: cap r) (fastforce split: if_splits)+

lemma match_here_length:
  assumes "(cap, r) \<in> set (match_here s)"
  shows "length r < length s"
proof -
  from assms obtain r1 r2 r3 r4 r5 where
    "r1 \<in> set (rx_spaces s)" "r2 \<in> set (rx_literal_ci ''INVALID'' r1)"
    "r3 \<in> set (rx_spaces r2)" "r4 \<in> set (rx_char CHR '':'' r3)"
    "r5 \<in> set (rx_spaces r4)" "(cap, r) \<in> set (rx_dot_plus r5)"
    unfolding match_here_def by auto
  then have "length r1 \<le> length s" "length r2 \<le> length r1" "length r3 \<le> length r2"
    "length r4 < length r3" "length r5 \<le> length r4" "length r < length r5"
    by (auto dest: rx_spaces_length rx_literal_ci_length rx_char_length rx_dot_plus_length)
  then show ?thesis by linarith
qed

lemma match_at_length: "match_at s = Some (cap, r) \<Longrightarrow> length r < length s"
  by (rule match_here_length [of cap r s]) (auto simp: match_at_def split: list.splits)

text \<open>
  \<open>re.findall\<close>: the captures of the matches, from left to right, none overlapping.
  \<open>bol\<close> says whether \<open>^\<close> matches at the current position. After a match the search
  goes on where the match ended, which is after a captured character, so not at the start
  of a line.
\<close>

function findall :: "bool \<Rightarrow> string \<Rightarrow> string list" where
  "findall bol [] = []"
| "findall bol (c # cs) =
     (case (if bol then match_at (c # cs) else None) of
        Some (cap, r) \<Rightarrow> cap # findall False r
      | None \<Rightarrow> findall (c = LF) cs)"
  by pat_completeness auto
termination
  by (relation "measure (\<lambda>(bol, s). length s)")
     (auto split: if_splits dest: match_at_length)

text \<open>\<open>" ".join(lines)\<close>\<close>

fun join_space :: "string list \<Rightarrow> string" where
  "join_space [] = []"
| "join_space [x] = x"
| "join_space (x # y # ys) = x @ '' '' @ join_space (y # ys)"

text \<open>\<open>re.split(r'[,\s]+', joined)\<close>: the pieces between the maximal runs of commas and
  whitespace; a run at either end gives an empty piece there.\<close>

definition is_sep :: "char \<Rightarrow> bool" where
  "is_sep c = (c = CHR '','' \<or> py_isspace c)"

function split_from :: "string \<Rightarrow> string \<Rightarrow> string list" where
  "split_from acc [] = [acc]"
| "split_from acc (c # cs) =
     (if is_sep c then acc # split_from [] (dropWhile is_sep cs)
      else split_from (acc @ [c]) cs)"
  by pat_completeness auto
termination
  by (relation "measure (\<lambda>(acc, s). length s)")
     (auto simp: less_Suc_eq_le length_dropWhile_le)

definition re_split :: "string \<Rightarrow> string list" where
  "re_split s = split_from [] s"

text \<open>\<open>re.sub(r'[^a-zA-Z-]', '', tok)\<close>\<close>

definition ascii_letter_or_hyphen :: "char \<Rightarrow> bool" where
  "ascii_letter_or_hyphen c =
     (let n = (of_char c :: nat) in
        (65 \<le> n \<and> n \<le> 90) \<or> (97 \<le> n \<and> n \<le> 122) \<or> c = CHR ''-'')"

definition re_sub_strip :: "string \<Rightarrow> string" where
  "re_sub_strip tok = filter ascii_letter_or_hyphen tok"

definition stop :: "string set" where
  "stop = {''word'', ''words'', ''tile'', ''tiles'', ''invalid'', ''blocked'',
           ''example'', ''sample'', ''placeholder'', ''unusable'', ''none''}"

text \<open>The body of the loop over the tokens: \<open>out\<close> is the list built so far.\<close>

definition keep_token :: "string set \<Rightarrow> string \<Rightarrow> string list \<Rightarrow> string list" where
  "keep_token existing_blocklist tok out =
     (let w = py_lower (re_sub_strip tok) in
        if w = [] \<or> w \<in> stop then out
        else if \<not> (2 \<le> length w \<and> length w \<le> 20) then out
        else if w \<in> existing_blocklist then out
        else out @ [w])"

definition detect_potential_invalids :: "string \<Rightarrow> string set \<Rightarrow> string list" where
  "detect_potential_invalids text existing_blocklist =
     (let lines = findall True text in
      if lines = [] then []
      else (let joined = join_space lines;
                tokens = re_split joined;
                out = fold (keep_token existing_blocklist) tokens []
            in sorted_list_of_set (set out)))"

section \<open>Compositions and predicates the properties speak of\<close>

text \<open>\<open>save_blocklist(load_blocklist())\<close>, the round trip (as \<open>solve_puzzle\<close> does it,
  with nothing merged in).\<close>

definition save_load :: "nat \<Rightarrow> fs \<Rightarrow> fs" where
  "save_load now d = (let (d1, words) = load_blocklist now d in save_blocklist now d1 words)"

text \<open>The stored text of the blocklist file, when there is one.\<close>

definition blocklist_text :: "fs \<Rightarrow> string option" where
  "blocklist_text d = map_option content (d BLOCKLIST_FILE)"

text \<open>What the reading loop does to a line before it looks at it.\<close>

definition normalise :: "string \<Rightarrow> string" where
  "normalise line = py_lower (py_strip line)"

text \<open>The tests of the reading loop on a normalised line, taken together.\<close>

definition accepted :: "string \<Rightarrow> bool" where
  "accepted w =
     (w \<noteq> [] \<and> \<not> startswith w ''#'' \<and> \<not> startswith w ''-'' \<and> all_alpha_or_hyphen w)"

text \<open>The response text of the parser's test vector.\<close>

definition test_response :: string where
  "test_response = ''...'' @ [LF] @ ''INVALID: Foo, bar1, the, none'' @ [LF]"



section \<open>The pattern as a function of the text\<close>









lemma filter_map_cons:
  "filter (\<lambda>(cap, r). P r) (map (\<lambda>(cap, r). (c # cap, r)) xs) =
   map (\<lambda>(cap, r). (c # cap, r)) (filter (\<lambda>(cap, r). P r) xs)"
  by (induction xs) auto

lemma dot_plus_eol:
  "filter (\<lambda>(cap, r). rx_eol r) (rx_dot_plus s) =
     (case s of [] \<Rightarrow> []
      | c # cs \<Rightarrow> if c = LF then []
                  else [(takeWhile (\<lambda>x. x \<noteq> LF) s, dropWhile (\<lambda>x. x \<noteq> LF) s)])"
proof (induction s)
  case Nil
  show ?case by simp
next
  case (Cons c cs)
  show ?case
  proof (cases "c = LF")
    case True
    then show ?thesis by simp
  next
    case False
    then show ?thesis
      using Cons.IH
      by (cases cs) (simp_all add: filter_map_cons rx_eol_def)
  qed
qed










section \<open>Texts without a marker\<close>







section \<open>The parser on its test vector\<close>


text \<open>
  What precedes the last line matters as well: a marker there is matched too, and its
  words join the result.
\<close>

lemma marker_in_preceding_text:
  "detect_potential_invalids
     (''INVALID: zzz'' @ [LF] @ ''INVALID: Foo, bar1, the, none'' @ [LF]) {} =
   [''bar'', ''foo'', ''the'', ''zzz'']"
  by code_simp












section \<open>Characters and lines\<close>

lemma py_lower_char_idem: "py_lower_char (py_lower_char c) = py_lower_char c"
  by (auto simp: py_lower_char_def Let_def)

lemma py_lower_idem: "py_lower (py_lower s) = py_lower s"
  by (simp add: py_lower_def py_lower_char_idem)

lemma alpha_not_space: "py_isalpha c \<Longrightarrow> \<not> py_isspace c"
  by (auto simp: py_isalpha_def py_isspace_def Let_def)

lemma hyphen_not_space: "\<not> py_isspace CHR ''-''"
  by (simp add: py_isspace_def)

lemma LF_space: "py_isspace LF" by (simp add: py_isspace_def)
lemma CR_space: "py_isspace CR" by (simp add: py_isspace_def)

lemma word_char_not_space:
  "all_alpha_or_hyphen w \<Longrightarrow> c \<in> set w \<Longrightarrow> \<not> py_isspace c"
  by (auto simp: all_alpha_or_hyphen_def list_all_iff alpha_not_space hyphen_not_space)

lemma word_no_line_end:
  assumes "all_alpha_or_hyphen w"
  shows "LF \<notin> set w" and "CR \<notin> set w"
  using word_char_not_space [OF assms] LF_space CR_space by blast+

lemma accept_line_eq:
  "accept_line l A = (if accepted (normalise l) then insert (normalise l) A else A)"
  by (simp add: accept_line_def accepted_def normalise_def Let_def)

lemma fold_accept_line:
  "fold accept_line ls A = A \<union> {w. \<exists>l \<in> set ls. w = normalise l \<and> accepted w}"
  by (induction ls arbitrary: A) (auto simp: accept_line_eq)

lemma scan_lines_eq: "scan_lines ls = {w. \<exists>l \<in> set ls. w = normalise l \<and> accepted w}"
  by (simp add: scan_lines_def fold_accept_line)

lemma scan_lines_image: "scan_lines ls = normalise ` set ls \<inter> Collect accepted"
  by (auto simp: scan_lines_eq)

lemma finite_scan_lines: "finite (scan_lines ls)"
  by (simp add: scan_lines_image)

lemma scan_lines_accepted: "w \<in> scan_lines ls \<Longrightarrow> accepted w"
  by (auto simp: scan_lines_eq)

lemma scan_lines_lower: "w \<in> scan_lines ls \<Longrightarrow> py_lower w = w"
  by (auto simp: scan_lines_eq normalise_def py_lower_idem)

lemma universal_newlines_id: "CR \<notin> set s \<Longrightarrow> universal_newlines s = s"
  by (induction s rule: universal_newlines.induct) auto

lemma lines_from_line:
  "LF \<notin> set w \<Longrightarrow> lines_from acc (w @ LF # rest) = (acc @ w @ [LF]) # lines_from [] rest"
  by (induction w arbitrary: acc) auto

lemma lines_from_concat:
  "\<forall>w \<in> set ws. LF \<notin> set w \<Longrightarrow>
   lines_from [] (concat (map (\<lambda>w. w @ [LF]) ws)) = map (\<lambda>w. w @ [LF]) ws"
  by (induction ws) (auto simp: lines_from_line)

lemma file_lines_words:
  assumes "\<forall>w \<in> set ws. all_alpha_or_hyphen w"
  shows "file_lines (concat (map (\<lambda>w. w @ [LF]) ws)) = map (\<lambda>w. w @ [LF]) ws"
proof -
  have "CR \<notin> set (concat (map (\<lambda>w. w @ [LF]) ws))"
    using assms word_no_line_end(2) by auto
  moreover have "\<forall>w \<in> set ws. LF \<notin> set w"
    using assms word_no_line_end(1) by blast
  ultimately show ?thesis
    by (simp add: file_lines_def universal_newlines_id lines_from_concat)
qed

lemma normalise_word_line:
  assumes "accepted w" and "py_lower w = w"
  shows "normalise (w @ [LF]) = w"
proof -
  from assms(1) have ne: "w \<noteq> []" and aa: "all_alpha_or_hyphen w"
    by (simp_all add: accepted_def)
  have h: "\<not> py_isspace (hd w)" and l: "\<not> py_isspace (last w)"
    using ne aa word_char_not_space by simp_all
  from ne h have "dropWhile py_isspace (w @ [LF]) = w @ [LF]"
    by (cases w) simp_all
  moreover from ne l have "dropWhile py_isspace (rev w) = rev w"
    by (cases "rev w") (simp_all add: last_rev [symmetric] hd_rev)
  ultimately have "py_strip (w @ [LF]) = w"
    by (simp add: py_strip_def LF_space)
  with assms(2) show ?thesis by (simp add: normalise_def)
qed

lemma scan_lines_word_lines:
  assumes "\<forall>w \<in> set ws. accepted w \<and> py_lower w = w"
  shows "scan_lines (map (\<lambda>w. w @ [LF]) ws) = set ws"
  using assms by (auto simp: scan_lines_eq normalise_word_line)

lemma scan_render:
  assumes "finite S" and "\<forall>w \<in> S. accepted w \<and> py_lower w = w"
  shows "scan_lines (file_lines (render_words S)) = S"
proof -
  from assms have "\<forall>w \<in> set (sorted_list_of_set S). all_alpha_or_hyphen w"
    by (simp add: accepted_def)
  then have "file_lines (render_words S) = map (\<lambda>w. w @ [LF]) (sorted_list_of_set S)"
    unfolding render_words_def by (rule file_lines_words)
  with assms show ?thesis by (simp add: scan_lines_word_lines)
qed

lemma scan_render_scan:
  "scan_lines (file_lines (render_words (scan_lines ls))) = scan_lines ls"
  by (rule scan_render) (auto simp: finite_scan_lines scan_lines_accepted scan_lines_lower)


lemma sorted_words_render:
  assumes "finite S" and "\<forall>w \<in> S. accepted w"
  shows "file_lines (render_words S) = map (\<lambda>w. w @ [LF]) (sorted_list_of_set S)"
proof -
  from assms have "\<forall>w \<in> set (sorted_list_of_set S). all_alpha_or_hyphen w"
    by (simp add: accepted_def)
  then show ?thesis unfolding render_words_def by (rule file_lines_words)
qed

lemma load_snd: "snd (load_blocklist t d) =
   (case d BLOCKLIST_FILE of None \<Rightarrow> {} | Some f \<Rightarrow> scan_lines (file_lines (content f)))"
  by (simp add: load_blocklist_def file_lines_def scan_lines_def split: option.splits)

lemma load_fst: "fst (load_blocklist t d) =
   (case d BLOCKLIST_FILE of None \<Rightarrow> write_file t d BLOCKLIST_FILE [] | Some f \<Rightarrow> d)"
  by (simp add: load_blocklist_def split: option.splits)

lemma load_snd_scan: "\<exists>ls. snd (load_blocklist t d) = scan_lines ls"
proof (cases "d BLOCKLIST_FILE")
  case None
  then have "snd (load_blocklist t d) = scan_lines []" by (simp add: load_snd scan_lines_def)
  then show ?thesis ..
next
  case (Some f)
  then have "snd (load_blocklist t d) = scan_lines (file_lines (content f))" by (simp add: load_snd)
  then show ?thesis ..
qed

lemma save_load_eq:
  "save_load t d =
     write_file t (fst (load_blocklist t d)) BLOCKLIST_FILE (render_words (snd (load_blocklist t d)))"
  by (simp add: save_load_def save_blocklist_def split: prod.splits)

lemma save_load_text:
  "blocklist_text (save_load t d) = Some (render_words (snd (load_blocklist t d)))"
  by (simp add: save_load_eq write_file_def blocklist_text_def)

lemma load_after_save_load:
  "snd (load_blocklist t' (save_load t d)) = snd (load_blocklist t d)"
proof -
  obtain ls where ls: "snd (load_blocklist t d) = scan_lines ls"
    using load_snd_scan by blast
  have "save_load t d BLOCKLIST_FILE = Some \<lparr>content = render_words (scan_lines ls), mtime = t\<rparr>"
    using ls by (simp add: save_load_eq write_file_def)
  then have "snd (load_blocklist t' (save_load t d)) =
      scan_lines (file_lines (render_words (scan_lines ls)))"
    by (simp add: load_snd)
  also have "\<dots> = scan_lines ls" by (rule scan_render_scan)
  finally show ?thesis by (simp only: ls)
qed

section \<open>The validity predicate\<close>

text \<open>
  C1, as stated: a line is retained iff, trimmed and lowercased, it is non-empty, does not
  start with \<open>#\<close> or \<open>-\<close>, and all its characters are ASCII letters or hyphens. The
  test in the code is \<open>c.isalpha()\<close>, which also holds of letters outside ASCII: the line
  made of the one character U+00E9 (e with acute) is retained by \<open>load_blocklist\<close>, and its character is no ASCII
  letter.
\<close>

theorem load_keeps_non_ascii_letter:
  "normalise [CHR 0xE9, LF] \<in>
     snd (load_blocklist 0 (Map.empty(BLOCKLIST_FILE \<mapsto> \<lparr>content = [CHR 0xE9, LF], mtime = 0\<rparr>))) \<and>
   \<not> list_all ascii_letter_or_hyphen (normalise [CHR 0xE9, LF])"
  by code_simp

text \<open>
  C1, amended: for every line of the blocklist file, \<open>load_blocklist\<close> returns the
  trimmed and lowercased line, and \<open>clean_blocklist_file\<close> leaves it as a line of the
  rewritten file, if and only if it is non-empty, does not start with \<open>#\<close> or \<open>-\<close>,
  and every one of its characters is a letter in the sense of \<open>str.isalpha\<close> (the ASCII
  letters and the letters beyond them) or a hyphen.
\<close>

theorem line_validity:
  assumes "d BLOCKLIST_FILE = Some f" and "l \<in> set (file_lines (content f))"
    and "blocklist_text (fst (clean_blocklist_file t' d)) = Some cleaned"
  shows "(normalise l \<in> snd (load_blocklist t d) \<longleftrightarrow>
            normalise l \<noteq> [] \<and> \<not> startswith (normalise l) ''#'' \<and>
            \<not> startswith (normalise l) ''-'' \<and>
            list_all (\<lambda>c. py_isalpha c \<or> c = CHR ''-'') (normalise l)) \<and>
         (normalise l @ [LF] \<in> set (file_lines cleaned) \<longleftrightarrow>
            normalise l \<noteq> [] \<and> \<not> startswith (normalise l) ''#'' \<and>
            \<not> startswith (normalise l) ''-'' \<and>
            list_all (\<lambda>c. py_isalpha c \<or> c = CHR ''-'') (normalise l))"
proof -
  let ?S = "scan_lines (file_lines (content f))"
  have mem: "normalise l \<in> ?S \<longleftrightarrow> accepted (normalise l)"
    using assms(2) by (auto simp: scan_lines_eq)
  have load: "snd (load_blocklist t d) = ?S"
    using assms(1) by (simp add: load_snd)
  have "cleaned = render_words ?S"
    using assms(1,3)
    by (simp add: clean_blocklist_file_def blocklist_text_def write_file_def Let_def)
  then have "file_lines cleaned = map (\<lambda>w. w @ [LF]) (sorted_list_of_set ?S)"
    by (simp add: sorted_words_render finite_scan_lines scan_lines_accepted)
  then have "normalise l @ [LF] \<in> set (file_lines cleaned) \<longleftrightarrow> normalise l \<in> ?S"
    by (auto simp: finite_scan_lines)
  with mem load show ?thesis
    by (simp add: accepted_def all_alpha_or_hyphen_def)
qed

theorem line_validity_witness:
  "normalise ('' Foo'' @ [LF]) \<in>
     snd (load_blocklist 1 (Map.empty(BLOCKLIST_FILE \<mapsto>
        \<lparr>content = '' Foo'' @ [LF] @ ''a b'' @ [LF], mtime = 0\<rparr>))) \<and>
   normalise ('' Foo'' @ [LF]) @ [LF] \<in> set (file_lines (''foo'' @ [LF])) \<and>
   normalise ('' Foo'' @ [LF]) = ''foo''"
proof -
  let ?f = "\<lparr>content = '' Foo'' @ [LF] @ ''a b'' @ [LF], mtime = 0::nat\<rparr>"
  let ?d = "Map.empty(BLOCKLIST_FILE \<mapsto> ?f)"
  have 1: "?d BLOCKLIST_FILE = Some ?f" by simp
  have 2: "'' Foo'' @ [LF] \<in> set (file_lines (content ?f))" by code_simp
  have 3: "blocklist_text (fst (clean_blocklist_file 2 ?d)) = Some (''foo'' @ [LF])" by code_simp
  have 4: "normalise ('' Foo'' @ [LF]) = ''foo''" by code_simp
  have 5: "list_all (\<lambda>c. py_isalpha c \<or> c = CHR ''-'') ''foo''" by code_simp
  have 6: "\<not> startswith ''foo'' ''#'' \<and> \<not> startswith ''foo'' ''-''" by code_simp
  from line_validity [OF 1 2 3, of 1] 4 5 6 show ?thesis by simp
qed

section \<open>Cleaning and the round trip\<close>

text \<open>
  C3: whatever the directory holds, a second run of \<open>clean_blocklist_file\<close> leaves in
  the blocklist file exactly the text that the first run left there (and after the first
  run there is such a file).
\<close>

theorem clean_twice_same_text:
  "blocklist_text (fst (clean_blocklist_file t2 (fst (clean_blocklist_file t1 d)))) =
     blocklist_text (fst (clean_blocklist_file t1 d)) \<and>
   blocklist_text (fst (clean_blocklist_file t1 d)) \<noteq> None"
proof (cases "d BLOCKLIST_FILE")
  case None
  then show ?thesis
    by (simp add: clean_blocklist_file_def write_file_def blocklist_text_def Let_def
        file_lines_def scan_lines_def render_words_def)
next
  case (Some f)
  then show ?thesis
    by (simp add: clean_blocklist_file_def write_file_def blocklist_text_def Let_def
        scan_render_scan)
qed

text \<open>
  C4: after one \<open>save_blocklist(load_blocklist())\<close> the file holds the loaded words
  \<open>ws\<close>, one per line (the lines of the file are the words, each with its line end),
  sorted ascending and without duplicates; each word is non-empty, starts with neither
  \<open>#\<close> nor \<open>-\<close>, consists of letters and hyphens and is in lower case; and any
  number of further round trips, at the times \<open>ts\<close>, leaves that text as it is.
\<close>

theorem save_load_fixed_point:
  assumes "ws = sorted_list_of_set (snd (load_blocklist t1 d))"
  shows "blocklist_text (save_load t1 d) = Some (concat (map (\<lambda>w. w @ [LF]) ws)) \<and>
         file_lines (concat (map (\<lambda>w. w @ [LF]) ws)) = map (\<lambda>w. w @ [LF]) ws \<and>
         sorted ws \<and> distinct ws \<and>
         (\<forall>w \<in> set ws. w \<noteq> [] \<and> \<not> startswith w ''#'' \<and> \<not> startswith w ''-'' \<and>
             all_alpha_or_hyphen w \<and> py_lower w = w) \<and>
         blocklist_text (fold save_load ts (save_load t1 d)) = blocklist_text (save_load t1 d)"
proof -
  obtain ls where ls: "snd (load_blocklist t1 d) = scan_lines ls"
    using load_snd_scan by blast
  have fin: "finite (scan_lines ls)" by (rule finite_scan_lines)
  have acc: "\<forall>w \<in> scan_lines ls. accepted w" by (simp add: scan_lines_accepted)
  have 1: "blocklist_text (save_load t1 d) = Some (concat (map (\<lambda>w. w @ [LF]) ws))"
    by (simp add: save_load_text assms render_words_def)
  have 2: "file_lines (concat (map (\<lambda>w. w @ [LF]) ws)) = map (\<lambda>w. w @ [LF]) ws"
    using sorted_words_render [OF fin acc] by (simp add: assms ls render_words_def)
  have 3: "sorted ws \<and> distinct ws" by (simp add: assms)
  have 4: "\<forall>w \<in> set ws. w \<noteq> [] \<and> \<not> startswith w ''#'' \<and> \<not> startswith w ''-'' \<and>
             all_alpha_or_hyphen w \<and> py_lower w = w"
    using fin scan_lines_accepted [of _ ls] scan_lines_lower [of _ ls]
    by (auto simp: assms ls accepted_def)
  have step: "snd (load_blocklist t' (save_load t d')) = snd (load_blocklist t d')" for t t' d'
    by (rule load_after_save_load)
  have 5: "snd (load_blocklist t (fold save_load ts d')) = snd (load_blocklist t d') \<and>
           (ts \<noteq> [] \<longrightarrow> blocklist_text (fold save_load ts d') = Some (render_words (snd (load_blocklist t d'))))" for d' t
  proof (induction ts arbitrary: d')
    case Nil
    show ?case by simp
  next
    case (Cons a ts)
    have l: "snd (load_blocklist t (save_load a d')) = snd (load_blocklist t d')"
      using step by (metis load_snd)
    show ?case
    proof (cases "ts = []")
      case True
      then show ?thesis using l by (simp add: save_load_text) (metis load_snd)
    next
      case False
      then show ?thesis using Cons.IH [of "save_load a d'"] l by simp
    qed
  qed
  have 6: "blocklist_text (fold save_load ts (save_load t1 d)) = blocklist_text (save_load t1 d)"
  proof (cases "ts = []")
    case True then show ?thesis by simp
  next
    case False
    then show ?thesis using 5 [of t1 "save_load t1 d"] step [of t1 t1 d]
      by (simp add: save_load_text)
  qed
  from 1 2 3 4 6 show ?thesis by blast
qed

theorem save_load_fixed_point_witness:
  "blocklist_text (save_load 1 (Map.empty(BLOCKLIST_FILE \<mapsto>
       \<lparr>content = ''foo'' @ [LF] @ ''# c'' @ [LF] @ '' Bar '' @ [CR, LF] @ ''foo'', mtime = 0\<rparr>)))
     = Some (''bar'' @ [LF] @ ''foo'' @ [LF]) \<and>
   blocklist_text (fold save_load [2, 3] (save_load 1 (Map.empty(BLOCKLIST_FILE \<mapsto>
       \<lparr>content = ''foo'' @ [LF] @ ''# c'' @ [LF] @ '' Bar '' @ [CR, LF] @ ''foo'', mtime = 0\<rparr>))))
     = Some (''bar'' @ [LF] @ ''foo'' @ [LF])"
proof -
  have ws: "[''bar'', ''foo''] = sorted_list_of_set (snd (load_blocklist 1 (Map.empty(BLOCKLIST_FILE \<mapsto>
       \<lparr>content = ''foo'' @ [LF] @ ''# c'' @ [LF] @ '' Bar '' @ [CR, LF] @ ''foo'', mtime = 0\<rparr>))))"
    by code_simp
  from save_load_fixed_point [OF ws, of "[2, 3]"] show ?thesis by simp
qed

section \<open>Adding a word\<close>

lemma add_invalid_eq:
  "add_invalid t d word =
     (if normalise word = [] then (fst (load_blocklist t d), Empty_Word)
      else if \<not> all_alpha_or_hyphen (normalise word) then (fst (load_blocklist t d), Bad_Characters)
      else if normalise word \<in> snd (load_blocklist t d)
        then (fst (load_blocklist t d), Already_Present (normalise word))
      else (save_blocklist t (fst (load_blocklist t d))
              (insert (normalise word) (snd (load_blocklist t d))), Added (normalise word)))"
  by (simp add: add_invalid_def normalise_def Let_def split: prod.splits)

lemma load_after_create:
  "d BLOCKLIST_FILE = None \<Longrightarrow>
   snd (load_blocklist t' (write_file t d BLOCKLIST_FILE [])) = snd (load_blocklist t d)"
  by (simp add: load_snd write_file_def file_lines_def scan_lines_def)

text \<open>
  C7, as stated: when \<open>add_invalid\<close> rejects its input the blocklist file is left as it
  was, and nothing is written. \<open>add_invalid\<close> calls \<open>load_blocklist\<close> before it looks at
  the word, and \<open>load_blocklist\<close> creates an absent file: in an empty directory the
  rejected empty word leaves an empty blocklist file behind.
\<close>

theorem add_creates_absent_file:
  "snd (add_invalid 1 Map.empty []) = Empty_Word \<and>
   blocklist_text Map.empty = None \<and>
   blocklist_text (fst (add_invalid 1 Map.empty [])) = Some []"
  by code_simp

text \<open>
  C7, amended: for every input that, trimmed and lowercased, is empty or has a character
  that is neither a letter nor a hyphen (the inputs \<open>foo bar\<close> and the empty one among
  them), \<open>add_invalid\<close> reports the rejection; when the blocklist file exists the
  directory is left exactly as it was; when it does not exist the file is created empty
  and nothing else changes; in both cases \<open>load_blocklist\<close> returns afterwards the set
  it returned before.
\<close>

theorem add_rejection:
  assumes "normalise word = [] \<or> \<not> all_alpha_or_hyphen (normalise word)"
  shows "snd (add_invalid t d word) = (if normalise word = [] then Empty_Word else Bad_Characters) \<and>
         fst (add_invalid t d word) =
           (if path_exists d BLOCKLIST_FILE then d else write_file t d BLOCKLIST_FILE []) \<and>
         snd (load_blocklist t' (fst (add_invalid t d word))) = snd (load_blocklist t d)"
proof (cases "d BLOCKLIST_FILE")
  case None
  with assms show ?thesis
    by (auto simp: add_invalid_eq load_fst path_exists_def load_after_create)
next
  case (Some f)
  with assms show ?thesis
    by (auto simp: add_invalid_eq load_fst path_exists_def load_snd)
qed

theorem add_rejection_witness:
  "snd (add_invalid 2 (Map.empty(BLOCKLIST_FILE \<mapsto> \<lparr>content = ''foo'' @ [LF], mtime = 1\<rparr>)) ''foo bar'')
      = Bad_Characters \<and>
   fst (add_invalid 2 (Map.empty(BLOCKLIST_FILE \<mapsto> \<lparr>content = ''foo'' @ [LF], mtime = 1\<rparr>)) ''foo bar'')
      = Map.empty(BLOCKLIST_FILE \<mapsto> \<lparr>content = ''foo'' @ [LF], mtime = 1\<rparr>) \<and>
   snd (add_invalid 2 (Map.empty(BLOCKLIST_FILE \<mapsto> \<lparr>content = ''foo'' @ [LF], mtime = 1\<rparr>)) [])
      = Empty_Word \<and>
   fst (add_invalid 2 (Map.empty(BLOCKLIST_FILE \<mapsto> \<lparr>content = ''foo'' @ [LF], mtime = 1\<rparr>)) [])
      = Map.empty(BLOCKLIST_FILE \<mapsto> \<lparr>content = ''foo'' @ [LF], mtime = 1\<rparr>)"
proof -
  let ?d = "Map.empty(BLOCKLIST_FILE \<mapsto> \<lparr>content = ''foo'' @ [LF], mtime = 1::nat\<rparr>)"
  have 1: "normalise ''foo bar'' = [] \<or> \<not> all_alpha_or_hyphen (normalise ''foo bar'')"
    by code_simp
  have 2: "normalise [] = [] \<or> \<not> all_alpha_or_hyphen (normalise [])"
    by code_simp
  have 3: "normalise ''foo bar'' \<noteq> []" by code_simp
  have 4: "normalise [] = []" by code_simp
  have 5: "path_exists ?d BLOCKLIST_FILE" by (simp add: path_exists_def)
  from add_rejection [OF 1, of 2 ?d 3] add_rejection [OF 2, of 2 ?d 3] 3 4 5
  show ?thesis by simp
qed

lemma hyphen_foo_word: "all_alpha_or_hyphen ''-foo''" "normalise ''-foo'' = ''-foo''"
  "\<not> accepted ''-foo''"
  by code_simp+

text \<open>
  C9: in every directory \<open>add_invalid\<close> accepts the input \<open>-foo\<close>: it reports the word
  as added, and the file it writes has the line \<open>-foo\<close>. A following \<open>load_blocklist\<close>
  does not return the word, and after the next round trip of load and save the line is
  gone from the file.
\<close>

theorem hyphen_word_added_then_lost:
  "snd (add_invalid t d ''-foo'') = Added ''-foo'' \<and>
   (\<exists>txt. blocklist_text (fst (add_invalid t d ''-foo'')) = Some txt \<and>
          ''-foo'' @ [LF] \<in> set (file_lines txt)) \<and>
   ''-foo'' \<notin> snd (load_blocklist t' (fst (add_invalid t d ''-foo''))) \<and>
   (\<exists>txt. blocklist_text (save_load t' (fst (add_invalid t d ''-foo''))) = Some txt \<and>
          ''-foo'' @ [LF] \<notin> set (file_lines txt))"
proof -
  let ?W = "snd (load_blocklist t d)"
  let ?d' = "fst (add_invalid t d ''-foo'')"
  obtain ls where ls: "?W = scan_lines ls" using load_snd_scan by blast
  have notin: "''-foo'' \<notin> ?W"
    using scan_lines_accepted [of "''-foo''" ls] hyphen_foo_word(3) by (auto simp: ls)
  then have eq: "add_invalid t d ''-foo'' =
      (save_blocklist t (fst (load_blocklist t d)) (insert ''-foo'' ?W), Added ''-foo'')"
    by (simp add: add_invalid_eq hyphen_foo_word)
  have tx: "blocklist_text ?d' = Some (render_words (insert ''-foo'' ?W))"
    by (simp add: eq save_blocklist_def write_file_def blocklist_text_def)
  have fin: "finite (insert ''-foo'' ?W)" by (simp add: ls finite_scan_lines)
  have sl: "set (sorted_list_of_set (insert ''-foo'' ?W)) = insert ''-foo'' ?W"
    using fin by (rule set_sorted_list_of_set)
  have "\<forall>w \<in> insert ''-foo'' ?W. all_alpha_or_hyphen w"
    using scan_lines_accepted [of _ ls] hyphen_foo_word(1)
    by (auto simp: ls accepted_def)
  then have "\<forall>w \<in> set (sorted_list_of_set (insert ''-foo'' ?W)). all_alpha_or_hyphen w"
    by (simp only: sl)
  then have fl: "file_lines (render_words (insert ''-foo'' ?W)) =
      map (\<lambda>w. w @ [LF]) (sorted_list_of_set (insert ''-foo'' ?W))"
    unfolding render_words_def by (rule file_lines_words)
  have 2: "''-foo'' @ [LF] \<in> set (file_lines (render_words (insert ''-foo'' ?W)))"
    unfolding fl set_map sl by blast
  obtain ls' where ls': "snd (load_blocklist t' ?d') = scan_lines ls'"
    using load_snd_scan by blast
  have 3: "''-foo'' \<notin> snd (load_blocklist t' ?d')"
    using scan_lines_accepted [of "''-foo''" ls'] hyphen_foo_word(3) by (auto simp: ls')
  have "file_lines (render_words (scan_lines ls')) =
      map (\<lambda>w. w @ [LF]) (sorted_list_of_set (scan_lines ls'))"
    by (simp add: sorted_words_render finite_scan_lines scan_lines_accepted)
  then have 4: "''-foo'' @ [LF] \<notin> set (file_lines (render_words (snd (load_blocklist t' ?d'))))"
    using 3 by (auto simp: ls' finite_scan_lines)
  show ?thesis
    using eq tx 2 3 4 by (simp add: save_load_text)
qed

section \<open>Words that are blocked already\<close>

lemma keep_token_disjoint:
  "set out \<inter> bl = {} \<Longrightarrow> set (keep_token bl tok out) \<inter> bl = {}"
  by (auto simp: keep_token_def Let_def)

lemma fold_keep_token_disjoint:
  "set out \<inter> bl = {} \<Longrightarrow> set (fold (keep_token bl) toks out) \<inter> bl = {}"
  by (induction toks arbitrary: out) (simp_all add: keep_token_disjoint)

lemma detect_disjoint: "set (detect_potential_invalids text bl) \<inter> bl = {}"
  using fold_keep_token_disjoint [of "[]" bl]
  by (simp add: detect_potential_invalids_def Let_def)

text \<open>
  C6, as stated: with the blocklist \<open>{"foo"}\<close> the parser returns exactly \<open>["bar"]\<close>
  on the test response. It returns \<open>the\<close> as well, which is no stopword.
\<close>

theorem test_vector_foo_blocked_not_bar:
  "detect_potential_invalids test_response {''foo''} \<noteq> [''bar'']"
  unfolding test_response_def by code_simp

text \<open>
  C6, amended: with the blocklist \<open>{"foo"}\<close> the parser excludes \<open>foo\<close> and returns
  exactly \<open>["bar", "the"]\<close> on the test response; and for every response text and every
  blocklist, no word of the blocklist is in the result.
\<close>

theorem blocked_words_excluded:
  "detect_potential_invalids test_response {''foo''} = [''bar'', ''the''] \<and>
   set (detect_potential_invalids text existing_blocklist) \<inter> existing_blocklist = {}"
proof
  show "detect_potential_invalids test_response {''foo''} = [''bar'', ''the'']"
    unfolding test_response_def by code_simp
  show "set (detect_potential_invalids text existing_blocklist) \<inter> existing_blocklist = {}"
    by (rule detect_disjoint)
qed

section \<open>Backup and restore: the newest snapshot\<close>

lemma glob_backups_iff:
  "(p, f) \<in> set (glob_backups d listing) \<longleftrightarrow> p \<in> set listing \<and> d p = Some f \<and> glob_match p"
  unfolding glob_backups_def
  by (induction listing) (auto simp: map_filter_simps split: option.splits if_splits)

lemma sorted_reverse_Nil: "sorted_reverse k xs = [] \<longleftrightarrow> xs = []"
proof -
  have "length (sorted_reverse k xs) = length xs" by (simp add: sorted_reverse_def)
  then show ?thesis by (metis length_0_conv)
qed

lemma sorted_reverse_head:
  assumes "sorted_reverse k xs = y # ys"
  shows "y \<in> set xs \<and> (\<forall>x \<in> set xs. k x \<le> k y)"
proof -
  from assms have eq: "sort_key k (rev xs) = rev ys @ [y]"
    by (metis sorted_reverse_def rev_rev_ident rev.simps(2))
  have "set (sort_key k (rev xs)) = set xs" by simp
  with eq have mem: "set xs = insert y (set ys)" by auto
  have "sorted (map k (sort_key k (rev xs)))" by (rule sorted_sort_key)
  with eq have "sorted (map k (rev ys) @ [k y])" by simp
  then have "\<forall>x \<in> set ys. k x \<le> k y" by (auto simp: sorted_append)
  with mem show ?thesis by auto
qed

lemma glob_match_backup_name: "glob_match (backup_name ts)"
  by (simp add: glob_match_def backup_name_def startswith_def endswith_def)

lemma backup_name_not_live: "backup_name ts \<noteq> BLOCKLIST_FILE"
  by (simp add: backup_name_def BLOCKLIST_FILE_def)

lemma live_not_globbed: "\<not> glob_match BLOCKLIST_FILE"
  by (simp add: glob_match_def BLOCKLIST_FILE_def)

end
